theory Spec2Isabelle
  imports Main
begin

section \<open>Memory, threads and outcomes\<close>

text \<open>
  The queue of \<^verbatim>\<open>blocking_q.c\<close> is a singly linked list of heap nodes behind a
  structure that holds the head pointer, the element count, a mutex and a condition
  variable. The model keeps the pointers: a pointer is \<open>None\<close> (NULL) or \<open>Some a\<close>,
  every kind of object has its own heap, and \<open>malloc\<close> hands out the addresses
  \<open>brk\<close>, \<open>brk + 1\<close>, ... so that a fresh block never overlaps a live one.

  The semantics is that of one thread running on its own. A call that would suspend
  the thread (waiting on the condition variable, locking a mutex that is taken) ends
  with the outcome \<open>Blocks\<close>: no line of the program unlocks a mutex, and no other
  thread runs in the model that could signal. Undefined behaviour of C (a NULL
  dereference, a write behind a buffer, waiting with a mutex the caller does not own)
  ends with \<open>Fault\<close>; a loop that never ends is \<open>Diverges\<close>.
\<close>

type_synonym addr = nat
type_synonym tid = nat
type_synonym task_ptr = "addr option"

datatype fault = NullDeref | BadPointer | BufferOverflow | MutexNotOwned

datatype 'a outcome = Returns 'a | Blocks | Fault fault | Diverges

text \<open>
  Modelled from the spec: the headers \<^verbatim>\<open>blocking_q.h\<close> and \<^verbatim>\<open>main.h\<close>, which
  declare \<^verbatim>\<open>task\<close>, \<^verbatim>\<open>blocking_q_node\<close>, \<^verbatim>\<open>blocking_q\<close>, \<^verbatim>\<open>processor\<close> and
  \<^verbatim>\<open>sched_data\<close>, are not among the sources. The records below have the fields the
  code reads and writes (\<^verbatim>\<open>t->type\<close>, \<^verbatim>\<open>t->start\<close>, \<^verbatim>\<open>t->end\<close>; \<^verbatim>\<open>first->data\<close>,
  \<^verbatim>\<open>first->next\<close>; \<^verbatim>\<open>q->sz\<close>, \<^verbatim>\<open>q->first\<close>, \<^verbatim>\<open>q->lock\<close>, \<^verbatim>\<open>q->cond\<close>;
  \<^verbatim>\<open>proc->tasks\<close> and the three timers; \<^verbatim>\<open>data->sched_q\<close>, \<^verbatim>\<open>data->processors\<close>).
  The count \<^verbatim>\<open>sz\<close> is a natural number: the code decrements it only after it has
  read it as non-zero. The mutex is the thread that holds it, if any; the condition
  variable has no state of its own here, a signal is an event of the trace.
\<close>

record task =
  type :: char
  start :: int
  end_t :: int

record blocking_q_node =
  data :: task_ptr
  nextp :: "addr option"

record blocking_q =
  sz :: nat
  first :: "addr option"
  lock :: "tid option"

record processor =
  tasks_q :: addr
  real_t :: int
  work_t :: int
  wait_t :: int

record sched_data =
  sched_q :: addr
  processors :: "processor list"

text \<open>
  The trace records what a run does besides computing: every access to a queue's
  count or linkage together with the holder of that queue's mutex at that moment,
  the signals, the output, and the threads \<^verbatim>\<open>main\<close> starts and joins.
\<close>

datatype access = SzRead | SzWrite | FirstRead | FirstWrite | Link

datatype event =
    Access addr access "tid option"
  | Signal addr
  | Print string
  | Sleep nat
  | Spawn string
  | Join string

record state =
  tasks :: "addr \<rightharpoonup> task"
  nodes :: "addr \<rightharpoonup> blocking_q_node"
  bufs :: "addr \<rightharpoonup> task_ptr list"
  queues :: "addr \<Rightarrow> blocking_q"
  brk :: addr
  trace :: "event list"

definition emit :: "event \<Rightarrow> state \<Rightarrow> state" where
  "emit e s = s\<lparr>trace := trace s @ [e]\<rparr>"

definition touch :: "addr \<Rightarrow> access \<Rightarrow> state \<Rightarrow> state" where
  "touch q k s = emit (Access q k (lock (queues s q))) s"

definition malloc :: "bool \<Rightarrow> state \<Rightarrow> addr option \<times> state" where
  "malloc ok s = (if ok then (Some (brk s), s\<lparr>brk := Suc (brk s)\<rparr>) else (None, s))"

definition get_sz :: "addr \<Rightarrow> state \<Rightarrow> nat \<times> state" where
  "get_sz q s = (sz (queues s q), touch q SzRead s)"

definition set_sz :: "addr \<Rightarrow> nat \<Rightarrow> state \<Rightarrow> state" where
  "set_sz q v s = (touch q SzWrite s)\<lparr>queues := (queues s)(q := (queues s q)\<lparr>sz := v\<rparr>)\<rparr>"

definition get_first :: "addr \<Rightarrow> state \<Rightarrow> addr option \<times> state" where
  "get_first q s = (first (queues s q), touch q FirstRead s)"

definition set_first :: "addr \<Rightarrow> addr option \<Rightarrow> state \<Rightarrow> state" where
  "set_first q v s = (touch q FirstWrite s)\<lparr>queues := (queues s)(q := (queues s q)\<lparr>first := v\<rparr>)\<rparr>"

definition set_next :: "addr \<Rightarrow> addr \<Rightarrow> addr option \<Rightarrow> state \<Rightarrow> state" where
  "set_next q a v s =
     (touch q Link s)\<lparr>nodes := (case nodes s a of None \<Rightarrow> nodes s
                                 | Some n \<Rightarrow> (nodes s)(a \<mapsto> n\<lparr>nextp := v\<rparr>))\<rparr>"

subsection \<open>The pthread primitives\<close>

text \<open>
  \<^verbatim>\<open>pthread_mutex_init\<close> and \<^verbatim>\<open>pthread_cond_init\<close> report an error code that the
  environment chooses; the code prints and carries on, so the model leaves the mutex
  unlocked whatever the code is. Locking a free mutex takes it; locking a taken one
  never comes back. Waiting gives the mutex up and suspends.
\<close>

definition pthread_mutex_init :: "addr \<Rightarrow> state \<Rightarrow> state" where
  "pthread_mutex_init q s = s\<lparr>queues := (queues s)(q := (queues s q)\<lparr>lock := None\<rparr>)\<rparr>"

definition pthread_mutex_lock :: "tid \<Rightarrow> addr \<Rightarrow> state \<Rightarrow> unit outcome \<times> state" where
  "pthread_mutex_lock self q s =
     (case lock (queues s q) of
        None \<Rightarrow> (Returns (), s\<lparr>queues := (queues s)(q := (queues s q)\<lparr>lock := Some self\<rparr>)\<rparr>)
      | Some t \<Rightarrow> (Blocks, s))"

definition pthread_cond_wait :: "tid \<Rightarrow> addr \<Rightarrow> state \<Rightarrow> unit outcome \<times> state" where
  "pthread_cond_wait self q s =
     (if lock (queues s q) = Some self
      then (Blocks, s\<lparr>queues := (queues s)(q := (queues s q)\<lparr>lock := None\<rparr>)\<rparr>)
      else (Fault MutexNotOwned, s))"

definition pthread_cond_signal :: "addr \<Rightarrow> state \<Rightarrow> state" where
  "pthread_cond_signal q s = emit (Signal q) s"

subsection \<open>What the primitives leave alone\<close>

lemma queues_emit [simp]: "queues (emit e s) = queues s"
  and nodes_emit [simp]: "nodes (emit e s) = nodes s"
  and brk_emit [simp]: "brk (emit e s) = brk s"
  and bufs_emit [simp]: "bufs (emit e s) = bufs s"
  and tasks_emit [simp]: "tasks (emit e s) = tasks s"
  by (simp_all add: emit_def)

lemma queues_touch [simp]: "queues (touch q k s) = queues s"
  and nodes_touch [simp]: "nodes (touch q k s) = nodes s"
  and brk_touch [simp]: "brk (touch q k s) = brk s"
  and bufs_touch [simp]: "bufs (touch q k s) = bufs s"
  and tasks_touch [simp]: "tasks (touch q k s) = tasks s"
  by (simp_all add: touch_def)

lemma queues_set_sz [simp]: "queues (set_sz q v s) = (queues s)(q := (queues s q)\<lparr>sz := v\<rparr>)"
  and nodes_set_sz [simp]: "nodes (set_sz q v s) = nodes s"
  and brk_set_sz [simp]: "brk (set_sz q v s) = brk s"
  and bufs_set_sz [simp]: "bufs (set_sz q v s) = bufs s"
  and tasks_set_sz [simp]: "tasks (set_sz q v s) = tasks s"
  by (simp_all add: set_sz_def)

lemma queues_set_first [simp]:
    "queues (set_first q v s) = (queues s)(q := (queues s q)\<lparr>first := v\<rparr>)"
  and nodes_set_first [simp]: "nodes (set_first q v s) = nodes s"
  and brk_set_first [simp]: "brk (set_first q v s) = brk s"
  and bufs_set_first [simp]: "bufs (set_first q v s) = bufs s"
  and tasks_set_first [simp]: "tasks (set_first q v s) = tasks s"
  by (simp_all add: set_first_def)

lemma queues_set_next [simp]: "queues (set_next q a v s) = queues s"
  and brk_set_next [simp]: "brk (set_next q a v s) = brk s"
  and bufs_set_next [simp]: "bufs (set_next q a v s) = bufs s"
  and tasks_set_next [simp]: "tasks (set_next q a v s) = tasks s"
  by (simp_all add: set_next_def)

lemma get_sz_simp [simp]: "get_sz q s = (sz (queues s q), touch q SzRead s)"
  by (simp add: get_sz_def)

lemma get_first_simp [simp]: "get_first q s = (first (queues s q), touch q FirstRead s)"
  by (simp add: get_first_def)

section \<open>The blocking queue\<close>

subsection \<open>The nodes reachable from a pointer\<close>

text \<open>
  \<open>queue_nodes h p\<close> follows \<^verbatim>\<open>next\<close> from \<open>p\<close> to NULL and lists the nodes it
  meets; it is \<open>None\<close> when the walk meets an address that holds no node or never
  reaches NULL. \<open>chain h p as\<close> says the same of a given list, by recursion on it.
\<close>

partial_function (option) queue_nodes ::
  "(addr \<rightharpoonup> blocking_q_node) \<Rightarrow> addr option \<Rightarrow> addr list option" where
  "queue_nodes h p =
     (case p of
        None \<Rightarrow> Some []
      | Some a \<Rightarrow>
          (case h a of
             None \<Rightarrow> None
           | Some n \<Rightarrow> Option.bind (queue_nodes h (nextp n)) (\<lambda>as. Some (a # as))))"

declare queue_nodes.simps [code]

fun chain :: "(addr \<rightharpoonup> blocking_q_node) \<Rightarrow> addr option \<Rightarrow> addr list \<Rightarrow> bool" where
  "chain h p [] = (p = None)"
| "chain h p (a # as) =
     (p = Some a \<and> (case h a of None \<Rightarrow> False | Some n \<Rightarrow> chain h (nextp n) as))"

text \<open>The task pointers held by a list of nodes, oldest first.\<close>

definition contents :: "(addr \<rightharpoonup> blocking_q_node) \<Rightarrow> addr list \<Rightarrow> task_ptr list" where
  "contents h as = map (\<lambda>a. case h a of None \<Rightarrow> None | Some n \<Rightarrow> data n) as"

subsection \<open>Sequencing\<close>

text \<open>
  \<open>on_return m f\<close> carries on with \<open>f\<close> when the call \<open>m\<close> has returned, and stops
  where \<open>m\<close> stopped otherwise.
\<close>

definition on_return ::
  "'a outcome \<times> state \<Rightarrow> ('a \<Rightarrow> state \<Rightarrow> 'b outcome \<times> state) \<Rightarrow> 'b outcome \<times> state" where
  "on_return m f =
     (case m of
        (Returns x, s) \<Rightarrow> f x s
      | (Blocks, s) \<Rightarrow> (Blocks, s)
      | (Fault e, s) \<Rightarrow> (Fault e, s)
      | (Diverges, s) \<Rightarrow> (Diverges, s))"

lemma on_return_cong [fundef_cong]:
  assumes "m = m'" and "\<And>x s. m' = (Returns x, s) \<Longrightarrow> f x s = f' x s"
  shows "on_return m f = on_return m' f'"
  using assms by (auto simp: on_return_def split: prod.splits outcome.splits)

lemma on_return_simps [simp]:
  "on_return (Returns x, s) f = f x s"
  "on_return (Blocks, s) f = (Blocks, s)"
  "on_return (Fault e, s) f = (Fault e, s)"
  "on_return (Diverges, s) f = (Diverges, s)"
  by (simp_all add: on_return_def)

lemma on_return_Returns:
  "on_return m f = (Returns y, s') \<longleftrightarrow> (\<exists>x s. m = (Returns x, s) \<and> f x s = (Returns y, s'))"
  by (cases m) (auto simp: on_return_def split: outcome.splits)

subsection \<open>\<^verbatim>\<open>__blocking_q_take\<close>\<close>

definition blocking_q_take :: "addr \<Rightarrow> state \<Rightarrow> task_ptr outcome \<times> state" where
  "blocking_q_take q s =
     (let (f, s1) = get_first q s in
      case f of
        None \<Rightarrow> (Fault NullDeref, s1)
      | Some a \<Rightarrow>
          (case nodes s1 a of
             None \<Rightarrow> (Fault BadPointer, s1)
           | Some n \<Rightarrow>
               let s2 = set_first q (nextp n) s1;
                   (c, s3) = get_sz q s2;
                   s4 = set_sz q (c - 1) s3
               in (Returns (data n), s4)))"

subsection \<open>\<^verbatim>\<open>blocking_q_init\<close>\<close>

text \<open>
  \<open>merr\<close> and \<open>cerr\<close> are what \<^verbatim>\<open>pthread_mutex_init\<close> and \<^verbatim>\<open>pthread_cond_init\<close>
  return. The function has one \<^verbatim>\<open>return\<close>, and it returns \<^verbatim>\<open>false\<close>.
\<close>

definition blocking_q_init :: "tid \<Rightarrow> int \<Rightarrow> int \<Rightarrow> addr \<Rightarrow> state \<Rightarrow> bool outcome \<times> state" where
  "blocking_q_init self merr cerr q s =
     (let s1 = set_sz q 0 s;
          s2 = set_first q None s1;
          s3 = pthread_mutex_init q s2;
          s4 = (if merr \<noteq> 0 then emit (Print ''ERROR'') s3 else s3);
          s5 = (if cerr \<noteq> 0 then emit (Print ''ERROR'') s4 else s4)
      in on_return (pthread_mutex_lock self q s5) (\<lambda>u s6. (Returns False, s6)))"

subsection \<open>\<^verbatim>\<open>blocking_q_put\<close>\<close>

text \<open>
  The walk \<^verbatim>\<open>curr = q->first; while (curr->next != NULL) curr = curr->next;\<close>
  reads \<^verbatim>\<open>curr->next\<close> before anything has checked \<^verbatim>\<open>curr\<close>. It yields the last
  node, or the fault of its first dereference, or nothing when the list is cyclic.
\<close>

partial_function (option) walk_to_last ::
  "(addr \<rightharpoonup> blocking_q_node) \<Rightarrow> addr option \<Rightarrow> (fault + addr) option" where
  "walk_to_last h cur =
     (case cur of
        None \<Rightarrow> Some (Inl NullDeref)
      | Some a \<Rightarrow>
          (case h a of
             None \<Rightarrow> Some (Inl BadPointer)
           | Some n \<Rightarrow> if nextp n \<noteq> None then walk_to_last h (nextp n) else Some (Inr a)))"

declare walk_to_last.simps [code]

text \<open>\<open>ok\<close> says whether \<^verbatim>\<open>malloc\<close> finds memory for the node.\<close>

definition blocking_q_put :: "bool \<Rightarrow> addr \<Rightarrow> task_ptr \<Rightarrow> state \<Rightarrow> bool outcome \<times> state" where
  "blocking_q_put ok q d s =
     (case malloc ok s of
        (None, s1) \<Rightarrow> (Returns False, s1)
      | (Some new_node, s1) \<Rightarrow>
          let s2 = s1\<lparr>nodes := (nodes s1)(new_node \<mapsto> \<lparr>data = d, nextp = None\<rparr>)\<rparr>;
              (f, s3) = get_first q s2
          in case walk_to_last (nodes s3) f of
               None \<Rightarrow> (Diverges, s3)
             | Some (Inl e) \<Rightarrow> (Fault e, s3)
             | Some (Inr l) \<Rightarrow>
                 let s4 = set_next q l (Some new_node) s3;
                     (c, s5) = get_sz q s4;
                     s6 = set_sz q (c + 1) s5;
                     (k, s7) = get_sz q s6;
                     s8 = (if k = 1 then pthread_cond_signal q s7 else s7)
                 in (Returns True, s8))"

subsection \<open>\<^verbatim>\<open>blocking_q_get\<close>\<close>

text \<open>
  The \<^verbatim>\<open>while\<close> loop waits as long as the count is zero; a wait that came back would
  test the count again. After the take, the code locks the mutex if the queue has
  become empty. Nothing in the function locks it before, or unlocks it.
\<close>

function blocking_q_get :: "tid \<Rightarrow> addr \<Rightarrow> state \<Rightarrow> task_ptr outcome \<times> state" where
  "blocking_q_get self q s =
     (let (c, s1) = get_sz q s in
      if c = 0 then
        on_return (pthread_cond_wait self q s1) (\<lambda>u s2. blocking_q_get self q s2)
      else
        on_return (blocking_q_take q s1) (\<lambda>element s2.
          let (k, s3) = get_sz q s2 in
          if k = 0 then
            on_return (pthread_mutex_lock self q s3) (\<lambda>u s4. (Returns element, s4))
          else (Returns element, s3)))"
  by pat_completeness auto

lemma pthread_cond_wait_never_returns:
  "pthread_cond_wait self q s \<noteq> (Returns u, s')"
  by (simp add: pthread_cond_wait_def)

termination blocking_q_get
  by (relation "{}") (simp_all add: pthread_cond_wait_never_returns)

declare blocking_q_get.simps [simp del]

subsection \<open>The buffers of the drains\<close>

text \<open>
  A buffer is an array of task pointers in the heap \<open>bufs\<close>; its length is the room it
  really has. \<open>store\<close> is the assignment \<^verbatim>\<open>data[i] = v\<close>. \<open>malloc_buf\<close> is
  \<^verbatim>\<open>malloc(sizeof(task_ptr) * n)\<close>, whose cells start as NULL here.
\<close>

definition store :: "addr option \<Rightarrow> nat \<Rightarrow> task_ptr \<Rightarrow> state \<Rightarrow> unit outcome \<times> state" where
  "store buf i v s =
     (case buf of
        None \<Rightarrow> (Fault NullDeref, s)
      | Some b \<Rightarrow>
          (case bufs s b of
             None \<Rightarrow> (Fault BadPointer, s)
           | Some xs \<Rightarrow>
               if i < length xs then (Returns (), s\<lparr>bufs := (bufs s)(b \<mapsto> xs[i := v])\<rparr>)
               else (Fault BufferOverflow, s)))"

definition malloc_buf :: "bool \<Rightarrow> nat \<Rightarrow> state \<Rightarrow> addr option \<times> state" where
  "malloc_buf ok n s =
     (case malloc ok s of
        (None, s1) \<Rightarrow> (None, s1)
      | (Some b, s1) \<Rightarrow> (Some b, s1\<lparr>bufs := (bufs s1)(b \<mapsto> replicate n None)\<rparr>))"

text \<open>
  Both drains empty the queue with the same loop,
  \<^verbatim>\<open>while (q->sz > 0) data[counter++] = __blocking_q_take(q);\<close>
  which looks at the count only, never at the room of the buffer.
\<close>

function drain_loop :: "addr \<Rightarrow> addr option \<Rightarrow> nat \<Rightarrow> state \<Rightarrow> nat outcome \<times> state" where
  "drain_loop q buf counter s =
     (let (c, s1) = get_sz q s in
      if c > 0 then
        on_return (blocking_q_take q s1) (\<lambda>t s2.
          on_return (store buf counter t s2) (\<lambda>u s3.
            drain_loop q buf (counter + 1) s3))
      else (Returns counter, s1))"
  by pat_completeness auto

lemma blocking_q_take_sz:
  "blocking_q_take q s = (Returns t, s') \<Longrightarrow> sz (queues s' q) = sz (queues s q) - 1"
  by (auto simp: blocking_q_take_def Let_def split: option.splits)

lemma store_queues: "store buf i v s = (r, s') \<Longrightarrow> queues s' = queues s"
  by (auto simp: store_def split: option.splits if_splits)

termination drain_loop
  apply (relation "measure (\<lambda>(q, buf, counter, s). sz (queues s q))")
   apply simp
  apply (auto dest!: blocking_q_take_sz store_queues)
  done

declare drain_loop.simps [simp del]

subsection \<open>\<^verbatim>\<open>blocking_q_drain\<close>\<close>

text \<open>
  \<open>cap\<close> is the parameter \<^verbatim>\<open>sz\<close>. The parameter \<^verbatim>\<open>data\<close> is overwritten with a
  fresh allocation before anything is stored, so the caller's buffer is not touched.
  The function ends without a \<^verbatim>\<open>return\<close> on this path: it hands back no value,
  which is \<open>None\<close>.
\<close>

definition blocking_q_drain ::
  "tid \<Rightarrow> bool \<Rightarrow> addr \<Rightarrow> addr option \<Rightarrow> nat \<Rightarrow> state \<Rightarrow> nat option outcome \<times> state" where
  "blocking_q_drain self ok q buf cap s =
     (let (c, s1) = get_sz q s in
      if c = 0 then (Returns (Some 0), s1)
      else
        let (buf', s2) = malloc_buf ok cap s1 in
        on_return (drain_loop q buf' 0 s2) (\<lambda>counter s3.
          on_return (pthread_mutex_lock self q s3) (\<lambda>u s4. (Returns None, s4))))"

subsection \<open>\<^verbatim>\<open>blocking_q_drain_at_least\<close>\<close>

text \<open>
  \<open>cap\<close> is the parameter \<^verbatim>\<open>sz\<close>, which the code never reads, and \<open>m\<close> is
  \<^verbatim>\<open>min\<close>. \<open>wait_for\<close> is the inner loop
  \<^verbatim>\<open>while (q->sz < (min - counter)) pthread_cond_wait(...)\<close>, and the recursion of
  \<open>drain_at_least_loop\<close> is the \<^verbatim>\<open>goto loop\<close>.
\<close>

function wait_for :: "tid \<Rightarrow> addr \<Rightarrow> nat \<Rightarrow> state \<Rightarrow> unit outcome \<times> state" where
  "wait_for self q k s =
     (let (c, s1) = get_sz q s in
      if c < k then
        on_return (pthread_cond_wait self q s1) (\<lambda>u s2. wait_for self q k s2)
      else (Returns (), s1))"
  by pat_completeness auto

termination wait_for
  by (relation "{}") (simp_all add: pthread_cond_wait_never_returns)

declare wait_for.simps [simp del]

function drain_at_least_loop ::
  "tid \<Rightarrow> addr \<Rightarrow> addr option \<Rightarrow> nat \<Rightarrow> nat \<Rightarrow> state \<Rightarrow> nat outcome \<times> state" where
  "drain_at_least_loop self q buf m counter s =
     on_return (drain_loop q buf counter s) (\<lambda>counter' s1.
       on_return (pthread_mutex_lock self q s1) (\<lambda>u s2.
         if m > counter' then
           on_return (wait_for self q (m - counter') s2) (\<lambda>u s3.
             drain_at_least_loop self q buf m counter' s3)
         else (Returns counter', s2)))"
  by pat_completeness auto

lemma drain_loop_stop:
  "sz (queues s q) = 0 \<Longrightarrow> drain_loop q buf counter s = (Returns counter, touch q SzRead s)"
  by (subst drain_loop.simps) simp

lemma drain_loop_step:
  "0 < sz (queues s q) \<Longrightarrow>
   drain_loop q buf counter s =
     on_return (blocking_q_take q (touch q SzRead s)) (\<lambda>t s2.
       on_return (store buf counter t s2) (\<lambda>u s3. drain_loop q buf (counter + 1) s3))"
  by (subst drain_loop.simps) simp

lemma drain_loop_induct [consumes 0, case_names stop step]:
  assumes "\<And>q buf counter s. sz (queues s q) = 0 \<Longrightarrow> P q buf counter s"
    and "\<And>q buf counter s.
      0 < sz (queues s q) \<Longrightarrow>
      (\<And>t s2 u s3. blocking_q_take q (touch q SzRead s) = (Returns t, s2) \<Longrightarrow>
         store buf counter t s2 = (Returns u, s3) \<Longrightarrow> P q buf (counter + 1) s3) \<Longrightarrow>
      P q buf counter s"
  shows "P q buf counter s"
proof (induction q buf counter s rule: drain_loop.induct)
  case (1 q buf counter s)
  show ?case
  proof (cases "sz (queues s q) = 0")
    case True
    then show ?thesis by (rule assms(1))
  next
    case False
    then have pos: "0 < sz (queues s q)" by simp
    show ?thesis
    proof (rule assms(2) [OF pos])
      fix t s2 u s3
      assume "blocking_q_take q (touch q SzRead s) = (Returns t, s2)"
        and "store buf counter t s2 = (Returns u, s3)"
      with pos show "P q buf (counter + 1) s3"
        by (intro "1.IH" [OF refl, of "sz (queues s q)" "touch q SzRead s" t s2 u s3]) simp_all
    qed
  qed
qed

lemma drain_loop_empties:
  "drain_loop q buf counter s = (Returns n, s') \<Longrightarrow> sz (queues s' q) = 0"
proof (induction q buf counter s rule: drain_loop_induct)
  case (stop q buf counter s)
  then show ?case by (auto simp: drain_loop_stop)
next
  case (step q buf counter s)
  from step.prems step.hyps show ?case
    by (auto simp: drain_loop_step on_return_Returns dest: step.IH)
qed

lemma pthread_mutex_lock_sz:
  "pthread_mutex_lock self q s = (r, s') \<Longrightarrow> sz (queues s' q) = sz (queues s q)"
  by (auto simp: pthread_mutex_lock_def split: option.splits)

lemma wait_for_Returns:
  "wait_for self q k s = (Returns u, s') \<Longrightarrow> k \<le> sz (queues s q)"
  by (subst (asm) wait_for.simps)
    (auto simp: on_return_Returns pthread_cond_wait_never_returns split: if_splits)

termination drain_at_least_loop
proof (relation "{}")
  show "wf {}" by simp
next
  fix self :: tid and q buf m counter s counter' s1 u s2 v s3
  assume dl: "drain_loop q buf counter s = (Returns counter', s1)"
    and lk: "pthread_mutex_lock self q s1 = (Returns u, s2)"
    and lt: "counter' < m"
    and wt: "wait_for self q (m - counter') s2 = (Returns v, s3)"
  from drain_loop_empties [OF dl] pthread_mutex_lock_sz [OF lk]
  have "sz (queues s2 q) = 0" by simp
  with wait_for_Returns [OF wt] lt
  show "((self, q, buf, m, counter', s3), (self, q, buf, m, counter, s)) \<in> {}"
    by simp
qed

declare drain_at_least_loop.simps [simp del]

definition blocking_q_drain_at_least ::
  "tid \<Rightarrow> addr \<Rightarrow> addr option \<Rightarrow> nat \<Rightarrow> nat \<Rightarrow> state \<Rightarrow> nat outcome \<times> state" where
  "blocking_q_drain_at_least self q buf cap m s = drain_at_least_loop self q buf m 0 s"

subsection \<open>\<^verbatim>\<open>blocking_q_peek\<close>\<close>

text \<open>
  On a non-empty queue the function allocates, overwrites its own parameter twice and
  ends without a \<^verbatim>\<open>return\<close>: nothing reaches the caller.
\<close>

definition blocking_q_peek :: "bool \<Rightarrow> addr \<Rightarrow> state \<Rightarrow> bool option outcome \<times> state" where
  "blocking_q_peek ok q s =
     (let (c, s1) = get_sz q s in
      if c = 0 then (Returns (Some False), s1)
      else
        let (p, s2) = malloc ok s1;
            (f, s3) = get_first q s2
        in (Returns None, s3))"

section \<open>The scheduler\<close>

definition POISON_PILL :: char where
  "POISON_PILL = CHR ''K''"

definition PROCESSOR_COUNT :: nat where
  "PROCESSOR_COUNT = 4"

lemma blocking_q_get_unfold:
  "blocking_q_get self q s =
     (if sz (queues s q) = 0 then
        on_return (pthread_cond_wait self q (touch q SzRead s)) (\<lambda>u s2. blocking_q_get self q s2)
      else
        on_return (blocking_q_take q (touch q SzRead s)) (\<lambda>element s2.
          if sz (queues s2 q) = 0 then
            on_return (pthread_mutex_lock self q (touch q SzRead s2)) (\<lambda>u s4. (Returns element, s4))
          else (Returns element, touch q SzRead s2)))"
  by (subst blocking_q_get.simps) simp

lemma blocking_q_get_sz:
  assumes "blocking_q_get self q s = (Returns t, s')"
  shows "sz (queues s' q) < sz (queues s q)"
proof (cases "sz (queues s q) = 0")
  case True
  with assms show ?thesis
    by (subst (asm) blocking_q_get_unfold)
      (simp add: on_return_Returns pthread_cond_wait_never_returns)
next
  case False
  with assms obtain e s2 where tk: "blocking_q_take q (touch q SzRead s) = (Returns e, s2)"
    and rest: "(if sz (queues s2 q) = 0 then
            on_return (pthread_mutex_lock self q (touch q SzRead s2)) (\<lambda>u s4. (Returns e, s4))
          else (Returns e, touch q SzRead s2)) = (Returns t, s')"
    by (subst (asm) blocking_q_get_unfold) (auto simp: on_return_Returns)
  from blocking_q_take_sz [OF tk] False have "sz (queues s2 q) < sz (queues s q)" by simp
  moreover from rest have "sz (queues s' q) = sz (queues s2 q)"
    by (auto simp: on_return_Returns split: if_splits dest!: pthread_mutex_lock_sz)
  ultimately show ?thesis by simp
qed

text \<open>
  The loop of \<^verbatim>\<open>scheduler\<close>: take a task from the inbound queue, print its type,
  stop on the poison pill. The block between the two takes is empty in the source:
  a task that is not the pill is dropped.
\<close>

function scheduler_loop :: "tid \<Rightarrow> addr \<Rightarrow> state \<Rightarrow> unit outcome \<times> state" where
  "scheduler_loop self q s =
     on_return (blocking_q_get self q s) (\<lambda>t s1.
       case t of
         None \<Rightarrow> (Fault NullDeref, s1)
       | Some a \<Rightarrow>
           (case tasks s1 a of
              None \<Rightarrow> (Fault BadPointer, s1)
            | Some tk \<Rightarrow>
                let s2 = emit (Print (''Received t '' @ [type tk, CHR 0x0A])) s1 in
                if POISON_PILL = type tk then (Returns (), s2)
                else scheduler_loop self q s2))"
  by pat_completeness auto

termination scheduler_loop
  apply (relation "measure (\<lambda>(self, q, s). sz (queues s q))")
   apply simp
  apply (auto dest!: blocking_q_get_sz)
  done

declare scheduler_loop.simps [simp del]

text \<open>
  The loop that stops the processors puts the same pointer \<^verbatim>\<open>poison\<close> into the
  queue of each of the \<open>PROCESSOR_COUNT\<close> processors and ignores what
  \<^verbatim>\<open>blocking_q_put\<close> returns. \<open>ok i\<close> says whether the node of the \<open>i\<close>-th put
  can be allocated.
\<close>

function stop_processors ::
  "(nat \<Rightarrow> bool) \<Rightarrow> sched_data \<Rightarrow> task_ptr \<Rightarrow> nat \<Rightarrow> state \<Rightarrow> unit outcome \<times> state" where
  "stop_processors ok sd poison i s =
     (if i < PROCESSOR_COUNT then
        (if i < length (processors sd) then
           on_return (blocking_q_put (ok i) (tasks_q (processors sd ! i)) poison s) (\<lambda>r s1.
             stop_processors ok sd poison (i + 1) s1)
         else (Fault BadPointer, s))
      else (Returns (), s))"
  by pat_completeness auto

termination stop_processors
  by (relation "measure (\<lambda>(ok, sd, poison, i, s). PROCESSOR_COUNT - i)") simp_all

declare stop_processors.simps [simp del]

text \<open>
  \<open>pok\<close> says whether the pill itself can be allocated; the code does not check.
  Its \<^verbatim>\<open>start\<close> and \<^verbatim>\<open>end\<close> are never written and read as 0 here. After the
  loop the pill is freed, whoever still points to it.
\<close>

definition scheduler ::
  "tid \<Rightarrow> bool \<Rightarrow> (nat \<Rightarrow> bool) \<Rightarrow> sched_data \<Rightarrow> state \<Rightarrow> unit outcome \<times> state" where
  "scheduler self pok ok sd s =
     on_return (scheduler_loop self (sched_q sd) s) (\<lambda>u s1.
       case malloc pok s1 of
         (None, s2) \<Rightarrow> (Fault NullDeref, s2)
       | (Some p, s2) \<Rightarrow>
           let s3 = s2\<lparr>tasks := (tasks s2)(p \<mapsto> \<lparr>type = POISON_PILL, start = 0, end_t = 0\<rparr>)\<rparr> in
           on_return (stop_processors ok sd (Some p) 0 s3) (\<lambda>u s4.
             (Returns (), s4\<lparr>tasks := (tasks s4)(p := None)\<rparr>)))"

section \<open>The driver\<close>

datatype exit_status = EXIT_SUCCESS | EXIT_FAILURE

text \<open>
  What the environment answers to \<^verbatim>\<open>main\<close>: whether each \<^verbatim>\<open>malloc\<close> finds
  memory, and the codes the pthread calls return.
\<close>

record env =
  sched_q_mem :: bool
  mutex_err :: int
  cond_err :: int
  sched_thread_err :: int
  proc_thread_err :: "nat \<Rightarrow> int"
  task_mem :: "nat \<Rightarrow> bool"
  node_mem :: "nat \<Rightarrow> bool"
  pill_mem :: bool
  pill_node_mem :: bool

definition processor_init :: "nat \<Rightarrow> state \<Rightarrow> bool outcome \<times> state" where
  "processor_init i s = (Returns True, emit (Print ''TODO'') s)"

text \<open>
  The loop that initialises and starts the processors; \<open>False\<close> is the
  \<^verbatim>\<open>return EXIT_FAILURE\<close> inside it. A started thread is an event of the trace: its
  body does not run in this model.
\<close>

function start_processors ::
  "(nat \<Rightarrow> state \<Rightarrow> bool outcome \<times> state) \<Rightarrow> env \<Rightarrow> nat \<Rightarrow> state \<Rightarrow> bool outcome \<times> state" where
  "start_processors pinit ev i s =
     (if i < PROCESSOR_COUNT then
        on_return (pinit i s) (\<lambda>ok s1.
          if \<not> ok then (Returns False, s1)
          else if 0 \<noteq> proc_thread_err ev i then (Returns False, s1)
          else start_processors pinit ev (i + 1) (emit (Spawn ''processor_run'') s1))
      else (Returns True, s))"
  by pat_completeness auto

termination start_processors
  by (relation "measure (\<lambda>(pinit, ev, i, s). PROCESSOR_COUNT - i)") simp_all

declare start_processors.simps [simp del]

text \<open>
  The loop over the characters of \<^verbatim>\<open>argv[1]\<close>: a letter A to D becomes a task put
  into the scheduler's queue, a digit is a pause, anything else is skipped.
\<close>

fun fill_queue :: "env \<Rightarrow> addr \<Rightarrow> nat \<Rightarrow> string \<Rightarrow> state \<Rightarrow> unit outcome \<times> state" where
  "fill_queue ev sq i [] s = (Returns (), s)"
| "fill_queue ev sq i (task_type # rest) s =
     (if task_type = CHR ''A'' \<or> task_type = CHR ''B'' \<or> task_type = CHR ''C'' \<or> task_type = CHR ''D''
      then
        (case malloc (task_mem ev i) s of
           (None, s1) \<Rightarrow> (Fault NullDeref, s1)
         | (Some t, s1) \<Rightarrow>
             let s2 = s1\<lparr>tasks := (tasks s1)(t \<mapsto> \<lparr>type = task_type, start = 0, end_t = 0\<rparr>)\<rparr> in
             on_return (blocking_q_put (node_mem ev i) sq (Some t) s2) (\<lambda>r s3.
               fill_queue ev sq (i + 1) rest s3))
      else if (48 :: nat) \<le> of_char task_type \<and> of_char task_type \<le> (57 :: nat)
      then fill_queue ev sq (i + 1) rest (emit (Sleep (of_char task_type - 48)) s)
      else fill_queue ev sq (i + 1) rest s)"

text \<open>
  \<^verbatim>\<open>main\<close>, with the two initialisers it calls as parameters. \<open>self\<close> is the main
  thread. A thread that \<^verbatim>\<open>main\<close> joins has not run in this model, so the first
  \<^verbatim>\<open>pthread_join\<close> never comes back and the model of \<^verbatim>\<open>main\<close> ends there.
\<close>

definition main_with ::
  "(addr \<Rightarrow> state \<Rightarrow> bool outcome \<times> state) \<Rightarrow> (nat \<Rightarrow> state \<Rightarrow> bool outcome \<times> state) \<Rightarrow>
   nat \<Rightarrow> string list \<Rightarrow> env \<Rightarrow> state \<Rightarrow> exit_status outcome \<times> state" where
  "main_with qinit pinit argc argv ev s =
     (if argc < 2 then
        (Returns EXIT_FAILURE, emit (Print (''Missing / Wrong arguments.'' @ [CHR 0x0A])) s)
      else
        (case malloc (sched_q_mem ev) s of
           (None, s1) \<Rightarrow> (Returns EXIT_FAILURE, s1)
         | (Some sq, s1) \<Rightarrow>
             on_return (qinit sq s1) (\<lambda>ok s2.
               if \<not> ok then (Returns EXIT_FAILURE, s2)
               else if 0 \<noteq> sched_thread_err ev then (Returns EXIT_FAILURE, s2)
               else
                 on_return (start_processors pinit ev 0 (emit (Spawn ''scheduler'') s2)) (\<lambda>started s3.
                   if \<not> started then (Returns EXIT_FAILURE, s3)
                   else
                     on_return (fill_queue ev sq 0 (argv ! 1) s3) (\<lambda>u s4.
                       case malloc (pill_mem ev) s4 of
                         (None, s5) \<Rightarrow> (Fault NullDeref, s5)
                       | (Some p, s5) \<Rightarrow>
                           let s6 = s5\<lparr>tasks := (tasks s5)(p \<mapsto>
                                      \<lparr>type = POISON_PILL, start = 0, end_t = 0\<rparr>)\<rparr> in
                           on_return (blocking_q_put (pill_node_mem ev) sq (Some p) s6) (\<lambda>r s7.
                             (Blocks, emit (Join ''scheduler'') s7)))))))"

definition main :: "tid \<Rightarrow> nat \<Rightarrow> string list \<Rightarrow> env \<Rightarrow> state \<Rightarrow> exit_status outcome \<times> state" where
  "main self argc argv ev s =
     main_with (blocking_q_init self (mutex_err ev) (cond_err ev)) processor_init argc argv ev s"

text \<open>The number of threads a trace has started.\<close>

fun spawned :: "event list \<Rightarrow> nat" where
  "spawned [] = 0"
| "spawned (Spawn f # es) = Suc (spawned es)"
| "spawned (e # es) = spawned es"

section \<open>Sequences of queue operations\<close>

datatype op =
    Put bool task_ptr
  | Get tid
  | Drain tid bool "addr option" nat
  | DrainAtLeast tid "addr option" nat nat

datatype result =
    PutResult bool
  | GetResult task_ptr
  | DrainResult "nat option"
  | DrainAtLeastResult nat

fun apply_op :: "addr \<Rightarrow> op \<Rightarrow> state \<Rightarrow> result outcome \<times> state" where
  "apply_op q (Put ok d) s =
     on_return (blocking_q_put ok q d s) (\<lambda>r s'. (Returns (PutResult r), s'))"
| "apply_op q (Get self) s =
     on_return (blocking_q_get self q s) (\<lambda>r s'. (Returns (GetResult r), s'))"
| "apply_op q (Drain self ok buf cap) s =
     on_return (blocking_q_drain self ok q buf cap s) (\<lambda>r s'. (Returns (DrainResult r), s'))"
| "apply_op q (DrainAtLeast self buf cap m) s =
     on_return (blocking_q_drain_at_least self q buf cap m s)
       (\<lambda>r s'. (Returns (DrainAtLeastResult r), s'))"

text \<open>
  A thread runs the operations one after the other on the queue \<open>q\<close> and goes no
  further than the first that does not return. \<open>run\<close> gives the outcomes in order and
  the state it ends in.
\<close>

fun run :: "addr \<Rightarrow> op list \<Rightarrow> state \<Rightarrow> result outcome list \<times> state" where
  "run q [] s = ([], s)"
| "run q (x # xs) s =
     (case apply_op q x s of
        (Returns r, s') \<Rightarrow> (let (rs, s'') = run q xs s' in (Returns r # rs, s''))
      | (Blocks, s') \<Rightarrow> ([Blocks], s')
      | (Fault e, s') \<Rightarrow> ([Fault e], s')
      | (Diverges, s') \<Rightarrow> ([Diverges], s'))"

text \<open>
  The size invariant: the count equals the number of nodes reachable from the head.
  \<open>alloc_ok\<close> is the allocator's own invariant, that no node lives at an address it
  has not handed out yet.
\<close>

definition size_inv :: "addr \<Rightarrow> state \<Rightarrow> bool" where
  "size_inv q s =
     (map_option length (queue_nodes (nodes s) (first (queues s q))) = Some (sz (queues s q)))"

definition alloc_ok :: "state \<Rightarrow> bool" where
  "alloc_ok s = (\<forall>a. brk s \<le> a \<longrightarrow> nodes s a = None)"

definition queue_ok :: "addr \<Rightarrow> state \<Rightarrow> bool" where
  "queue_ok q s = (size_inv q s \<and> alloc_ok s)"

text \<open>
  The lock discipline of a thread \<open>self\<close> on the queue \<open>q\<close>: every access to the
  count or the linkage of \<open>q\<close> that the trace records happened while \<open>self\<close> held the
  mutex of \<open>q\<close>.
\<close>

fun under_lock :: "tid \<Rightarrow> addr \<Rightarrow> event \<Rightarrow> bool" where
  "under_lock self q (Access q' k holder) = (if q' = q then holder = Some self else True)"
| "under_lock self q e = True"

definition lock_disciplined :: "tid \<Rightarrow> addr \<Rightarrow> event list \<Rightarrow> bool" where
  "lock_disciplined self q es = list_all (under_lock self q) es"

section \<open>Concrete states\<close>

text \<open>A process that has allocated nothing yet.\<close>

definition start_state :: state where
  "start_state =
     \<lparr>tasks = Map.empty, nodes = Map.empty, bufs = Map.empty,
      queues = (\<lambda>q. \<lparr>sz = 0, first = None, lock = None\<rparr>), brk = 1, trace = []\<rparr>"

text \<open>
  The queue at address 0 holds the tasks 10 (an A) and 11 (a B), in this order, in
  the nodes 1 and 2; its mutex is free. The buffer 3 has room for two task pointers,
  the buffer 4 for one.
\<close>

definition two_tasks :: state where
  "two_tasks =
     \<lparr>tasks = [10 \<mapsto> \<lparr>type = CHR ''A'', start = 0, end_t = 0\<rparr>,
               11 \<mapsto> \<lparr>type = CHR ''B'', start = 0, end_t = 0\<rparr>],
      nodes = [1 \<mapsto> \<lparr>data = Some 10, nextp = Some 2\<rparr>, 2 \<mapsto> \<lparr>data = Some 11, nextp = None\<rparr>],
      bufs = [3 \<mapsto> [None, None], 4 \<mapsto> [None]],
      queues = (\<lambda>q. \<lparr>sz = 0, first = None, lock = None\<rparr>)(0 := \<lparr>sz = 2, first = Some 1, lock = None\<rparr>),
      brk = 20, trace = []\<rparr>"

text \<open>
  The scheduler's inbound queue, at address 0, holds the poison pill (task 10, node 1)
  and nothing else; the queues of the four processors, at the addresses 1 to 4, are
  empty; every mutex is free.
\<close>

definition pill_arrives :: state where
  "pill_arrives =
     \<lparr>tasks = [10 \<mapsto> \<lparr>type = CHR ''K'', start = 0, end_t = 0\<rparr>],
      nodes = [1 \<mapsto> \<lparr>data = Some 10, nextp = None\<rparr>],
      bufs = Map.empty,
      queues = (\<lambda>q. \<lparr>sz = 0, first = None, lock = None\<rparr>)(0 := \<lparr>sz = 1, first = Some 1, lock = None\<rparr>),
      brk = 20, trace = []\<rparr>"

definition four_processors :: sched_data where
  "four_processors =
     \<lparr>sched_q = 0,
      processors = map (\<lambda>q. \<lparr>tasks_q = q, real_t = 0, work_t = 0, wait_t = 0\<rparr>) [1, 2, 3, 4]\<rparr>"

text \<open>
  An environment with memory for everything and working primitives, where creating
  the scheduler's thread fails with the code 11.
\<close>

definition no_threads :: env where
  "no_threads =
     \<lparr>sched_q_mem = True, mutex_err = 0, cond_err = 0, sched_thread_err = 11,
      proc_thread_err = (\<lambda>i. 0), task_mem = (\<lambda>i. True), node_mem = (\<lambda>i. True),
      pill_mem = True, pill_node_mem = True\<rparr>"

section \<open>Properties\<close>

subsection \<open>Initialisation and the first put\<close>

lemma walk_to_last_NULL: "walk_to_last h None = Some (Inl NullDeref)"
  by (simp add: walk_to_last.simps)

lemma blocking_q_init_result:
  "fst (blocking_q_init self merr cerr q s) = Returns False"
  by (simp add: blocking_q_init_def pthread_mutex_lock_def pthread_mutex_init_def Let_def)

lemma blocking_q_init_queue:
  "queues (snd (blocking_q_init self merr cerr q s)) q = \<lparr>sz = 0, first = None, lock = Some self\<rparr>"
  by (simp add: blocking_q_init_def pthread_mutex_lock_def pthread_mutex_init_def Let_def)

lemma blocking_q_put_NULL:
  "first (queues s q) = None \<Longrightarrow> fst (blocking_q_put True q d s) = Fault NullDeref"
  by (simp add: blocking_q_put_def malloc_def walk_to_last_NULL Let_def)

text \<open>
  C1 (the code at the failing input). On a queue that \<^verbatim>\<open>blocking_q_init\<close> has just
  set up, hence empty, \<^verbatim>\<open>blocking_q_put\<close> with memory available does not append:
  it dereferences the NULL head pointer.
\<close>

theorem blocking_q_put_on_empty_queue_faults:
  "fst (blocking_q_put True q d (snd (blocking_q_init self merr cerr q s))) = Fault NullDeref"
  by (rule blocking_q_put_NULL) (simp add: blocking_q_init_queue)

text \<open>
  C7 (the code at the failing input). With both primitives created (error codes 0),
  \<^verbatim>\<open>blocking_q_init\<close> leaves the queue empty with count zero, and reports failure.
\<close>

theorem blocking_q_init_reports_failure_on_success:
  "fst (blocking_q_init self 0 0 q s) = Returns False \<and>
   sz (queues (snd (blocking_q_init self 0 0 q s)) q) = 0 \<and>
   first (queues (snd (blocking_q_init self 0 0 q s)) q) = None"
  by (simp add: blocking_q_init_result blocking_q_init_queue)

text \<open>
  C3 (the code at the failing input). Three puts and three gets on a queue that has
  just been initialised: the first put faults on the NULL head, so the thread gets no
  further and no get returns anything.
\<close>

theorem fifo_run_stops_at_first_put:
  "fst (run q [Put True a, Put True b, Put True c, Get self, Get self, Get self]
          (snd (blocking_q_init self' merr cerr q s))) = [Fault NullDeref]"
proof -
  define s0 where "s0 = snd (blocking_q_init self' merr cerr q s)"
  have "first (queues s0 q) = None" by (simp add: s0_def blocking_q_init_queue)
  then have "fst (blocking_q_put True q a s0) = Fault NullDeref" by (rule blocking_q_put_NULL)
  then obtain s1 where "blocking_q_put True q a s0 = (Fault NullDeref, s1)"
    by (cases "blocking_q_put True q a s0") simp
  then show ?thesis by (simp add: s0_def [symmetric])
qed

subsection \<open>Lists in the heap\<close>

lemma chain_Cons:
  "chain h p (a # as) \<longleftrightarrow> p = Some a \<and> (\<exists>n. h a = Some n \<and> chain h (nextp n) as)"
  by (simp split: option.splits)

declare chain.simps(2) [simp del]

lemma chain_queue_nodes: "chain h p as \<Longrightarrow> queue_nodes h p = Some as"
proof (induction as arbitrary: p)
  case Nil
  then show ?case by (simp add: queue_nodes.simps)
next
  case (Cons a as)
  then obtain n where "p = Some a" "h a = Some n" "chain h (nextp n) as"
    by (auto simp: chain_Cons)
  with Cons.IH [of "nextp n"] show ?case
    by (subst queue_nodes.simps) simp
qed

lemma queue_nodes_chain:
  assumes "queue_nodes h p = Some as"
  shows "chain h p as"
proof (rule queue_nodes.raw_induct [where P = "\<lambda>h p as. chain h p as", OF _ assms])
  fix walk and h :: "addr \<rightharpoonup> blocking_q_node" and p as
  assume IH: "\<And>h p as. walk h p = Some as \<Longrightarrow> chain h p as"
    and eq: "(case p of None \<Rightarrow> Some []
              | Some a \<Rightarrow> (case h a of None \<Rightarrow> None
                  | Some n \<Rightarrow> Option.bind (walk h (nextp n)) (\<lambda>as. Some (a # as)))) = Some as"
  show "chain h p as"
  proof (cases p)
    case None
    with eq show ?thesis by auto
  next
    case (Some a)
    with eq obtain n bs where "h a = Some n" "walk h (nextp n) = Some bs" "as = a # bs"
      by (auto split: option.splits simp: bind_eq_Some_conv)
    with IH [of h "nextp n" bs] Some show ?thesis by (simp add: chain_Cons)
  qed
qed

lemma queue_nodes_iff: "queue_nodes h p = Some as \<longleftrightarrow> chain h p as"
  by (blast intro: chain_queue_nodes queue_nodes_chain)

lemma size_inv_chain:
  "size_inv q s \<longleftrightarrow> (\<exists>as. chain (nodes s) (first (queues s q)) as \<and> length as = sz (queues s q))"
  by (auto simp: size_inv_def queue_nodes_iff)

lemma chain_unique: "chain h p as \<Longrightarrow> chain h p bs \<Longrightarrow> as = bs"
proof (induction as arbitrary: p bs)
  case Nil
  then show ?case by (cases bs) (auto simp: chain_Cons)
next
  case (Cons a as)
  from Cons.prems(1) obtain n where n: "p = Some a" "h a = Some n" "chain h (nextp n) as"
    by (auto simp: chain_Cons)
  with Cons.prems(2) obtain cs where "bs = a # cs" "chain h (nextp n) cs"
    by (cases bs) (auto simp: chain_Cons)
  with Cons.IH [OF n(3)] show ?case by simp
qed

lemma chain_suffix: "chain h p (xs @ y # ys) \<Longrightarrow> chain h (Some y) (y # ys)"
  by (induction xs arbitrary: p) (auto simp: chain_Cons)

lemma chain_head_fresh:
  assumes c: "chain h p (a # as)"
  shows "a \<notin> set as"
proof
  assume "a \<in> set as"
  then obtain xs ys where as: "as = xs @ a # ys" by (auto simp: in_set_conv_decomp)
  from c have p: "p = Some a" by (simp add: chain_Cons)
  from c as have "chain h (Some a) ((a # xs) @ a # ys)" by (simp add: p)
  then have "chain h (Some a) (a # ys)" by (rule chain_suffix)
  with c p have "a # as = a # ys" using chain_unique [of h "Some a" "a # as" "a # ys"] by simp
  with as show False by simp
qed

lemma chain_allocated: "chain h p as \<Longrightarrow> a \<in> set as \<Longrightarrow> h a \<noteq> None"
  by (induction as arbitrary: p) (auto simp: chain_Cons)

lemma chain_frame: "chain h p as \<Longrightarrow> n \<notin> set as \<Longrightarrow> chain (h(n := v)) p as"
  by (induction as arbitrary: p) (auto simp: chain_Cons)

lemma walk_to_last_chain:
  "chain h p as \<Longrightarrow> as \<noteq> [] \<Longrightarrow> walk_to_last h p = Some (Inr (last as))"
proof (induction as arbitrary: p)
  case Nil
  then show ?case by simp
next
  case (Cons a as)
  then obtain n where n: "p = Some a" "h a = Some n" "chain h (nextp n) as"
    by (auto simp: chain_Cons)
  show ?case
  proof (cases as)
    case Nil
    with n show ?thesis by (subst walk_to_last.simps) simp
  next
    case (Cons b bs)
    with n Cons.IH [of "nextp n"] show ?thesis
      by (subst walk_to_last.simps) (auto simp: chain_Cons)
  qed
qed

lemma chain_snoc:
  "chain h p as \<Longrightarrow> as \<noteq> [] \<Longrightarrow> n \<notin> set as \<Longrightarrow> h n = Some nd \<Longrightarrow> nextp nd = None \<Longrightarrow>
   h (last as) = Some l \<Longrightarrow> chain (h(last as \<mapsto> l\<lparr>nextp := Some n\<rparr>)) p (as @ [n])"
proof (induction as arbitrary: p)
  case Nil
  then show ?case by simp
next
  case (Cons a as)
  from Cons.prems(1) obtain na where na: "p = Some a" "h a = Some na" "chain h (nextp na) as"
    by (auto simp: chain_Cons)
  show ?case
  proof (cases "as = []")
    case True
    with na Cons.prems show ?thesis by (auto simp: chain_Cons)
  next
    case False
    from Cons.prems(1) have "a \<notin> set as" by (rule chain_head_fresh)
    with False have neq: "last as \<noteq> a" by (metis last_in_set)
    from False Cons.prems have "n \<notin> set as" "h (last as) = Some l" by auto
    from Cons.IH [OF na(3) False this(1) Cons.prems(4,5) this(2)]
    have tl: "chain (h(last as \<mapsto> l\<lparr>nextp := Some n\<rparr>)) (nextp na) (as @ [n])" .
    from neq na have hd: "(h(last as \<mapsto> l\<lparr>nextp := Some n\<rparr>)) a = Some na" by simp
    from False have lst: "last (a # as) = last as" by simp
    from tl hd na(1) show ?thesis
      unfolding append_Cons chain_Cons lst by blast
  qed
qed


subsection \<open>Put and get on a queue that is not empty\<close>

text \<open>
  Where the queue already holds a node, \<^verbatim>\<open>blocking_q_put\<close> links the new node
  behind the last one and \<^verbatim>\<open>blocking_q_get\<close> hands out the oldest task.
\<close>

lemma contents_relink:
  "h l = Some nd \<Longrightarrow> contents (h(l \<mapsto> nd\<lparr>nextp := v\<rparr>)) as = contents h as"
  by (auto simp: contents_def)

lemma blocking_q_put_appends:
  assumes as: "chain (nodes s) (first (queues s q)) as" "as \<noteq> []" and al: "alloc_ok s"
  shows "\<exists>s'. blocking_q_put True q d s = (Returns True, s') \<and>
           chain (nodes s') (first (queues s' q)) (as @ [brk s]) \<and>
           contents (nodes s') (as @ [brk s]) = contents (nodes s) as @ [d] \<and>
           sz (queues s' q) = sz (queues s q) + 1"
proof -
  define n where "n = brk s"
  define h where "h = (nodes s)(n \<mapsto> \<lparr>data = d, nextp = None\<rparr>)"
  from al have fresh: "n \<notin> set as"
    using chain_allocated [OF as(1), of n] by (auto simp: alloc_ok_def n_def)
  with as have ch: "chain h (first (queues s q)) as"
    unfolding h_def by (intro chain_frame)
  from walk_to_last_chain [OF ch as(2)]
  have w: "walk_to_last h (first (queues s q)) = Some (Inr (last as))" .
  from as(2) have "last as \<in> set as" by simp
  with chain_allocated [OF ch] obtain l where l: "h (last as) = Some l" by auto
  have hn: "h n = Some \<lparr>data = d, nextp = None\<rparr>" by (simp add: h_def)
  from chain_snoc [OF ch as(2) fresh hn _ l]
  have ch': "chain (h(last as \<mapsto> l\<lparr>nextp := Some n\<rparr>)) (first (queues s q)) (as @ [n])" by simp
  from fresh as(2) have ne: "last as \<noteq> n" by (metis last_in_set)
  have "contents (h(last as \<mapsto> l\<lparr>nextp := Some n\<rparr>)) (as @ [n]) = contents h (as @ [n])"
    using l by (rule contents_relink)
  also have "\<dots> = contents (nodes s) as @ [d]"
    using fresh by (simp add: contents_def h_def)
  finally have co: "contents (h(last as \<mapsto> l\<lparr>nextp := Some n\<rparr>)) (as @ [n]) = contents (nodes s) as @ [d]" .
  from w l ch' co show ?thesis
    by (simp add: blocking_q_put_def malloc_def Let_def set_next_def pthread_cond_signal_def
        h_def [symmetric] n_def [symmetric])
qed

lemma blocking_q_get_head:
  assumes "chain (nodes s) (first (queues s q)) (a # as)" and "as \<noteq> []"
    and "sz (queues s q) = length (a # as)"
  shows "\<exists>s'. blocking_q_get self q s = (Returns (hd (contents (nodes s) (a # as))), s') \<and>
           nodes s' = nodes s \<and>
           chain (nodes s') (first (queues s' q)) as \<and> sz (queues s' q) = length as"
proof -
  from assms(1) obtain n where n: "first (queues s q) = Some a" "nodes s a = Some n"
    "chain (nodes s) (nextp n) as"
    by (auto simp: chain_Cons)
  with assms(2,3) show ?thesis
    by (subst blocking_q_get_unfold)
      (simp add: blocking_q_take_def Let_def contents_def)
qed

subsection \<open>The size invariant\<close>

text \<open>
  \<open>queue_ok\<close>, the size invariant together with the allocator's, holds in the state
  every operation ends in, whether the operation returns, blocks or faults.
\<close>

lemma on_return_inv:
  assumes "I (snd m)" and "\<And>x s. m = (Returns x, s) \<Longrightarrow> I (snd (f x s))"
  shows "I (snd (on_return m f))"
  using assms by (cases m) (auto simp: on_return_def split: outcome.splits)

lemma queue_ok_touch [simp]: "queue_ok q (touch q' k s) = queue_ok q s"
  by (simp add: queue_ok_def size_inv_def alloc_ok_def)

lemma queue_ok_emit [simp]: "queue_ok q (emit e s) = queue_ok q s"
  by (simp add: queue_ok_def size_inv_def alloc_ok_def)

lemma queue_ok_take:
  assumes "queue_ok q s"
  shows "queue_ok q (snd (blocking_q_take q s))"
proof -
  from assms obtain as where as: "chain (nodes s) (first (queues s q)) as"
    "length as = sz (queues s q)" and al: "alloc_ok s"
    by (auto simp: queue_ok_def size_inv_chain)
  show ?thesis
  proof (cases as)
    case Nil
    with as have "first (queues s q) = None" by simp
    with assms show ?thesis by (simp add: blocking_q_take_def)
  next
    case (Cons a bs)
    with as obtain n where n: "first (queues s q) = Some a" "nodes s a = Some n"
      "chain (nodes s) (nextp n) bs"
      by (auto simp: chain_Cons)
    with as Cons al show ?thesis
      by (auto simp: blocking_q_take_def Let_def queue_ok_def size_inv_chain alloc_ok_def)
  qed
qed

lemma queue_ok_lock: "queue_ok q s \<Longrightarrow> queue_ok q (snd (pthread_mutex_lock self q s))"
  by (auto simp: pthread_mutex_lock_def queue_ok_def size_inv_def alloc_ok_def split: option.splits)

lemma queue_ok_wait: "queue_ok q s \<Longrightarrow> queue_ok q (snd (pthread_cond_wait self q s))"
  by (auto simp: pthread_cond_wait_def queue_ok_def size_inv_def alloc_ok_def)

lemma queue_ok_store: "queue_ok q s \<Longrightarrow> queue_ok q (snd (store buf i v s))"
  by (auto simp: store_def queue_ok_def size_inv_def alloc_ok_def split: option.splits)

lemma queue_ok_malloc_buf: "queue_ok q s \<Longrightarrow> queue_ok q (snd (malloc_buf ok n s))"
  by (auto simp: malloc_buf_def malloc_def queue_ok_def size_inv_def alloc_ok_def)

lemma queue_ok_put:
  assumes "queue_ok q s"
  shows "queue_ok q (snd (blocking_q_put ok q d s))"
proof (cases ok)
  case False
  with assms show ?thesis by (simp add: blocking_q_put_def malloc_def)
next
  case True
  from assms obtain as where as: "chain (nodes s) (first (queues s q)) as"
    "length as = sz (queues s q)" and al: "alloc_ok s"
    by (auto simp: queue_ok_def size_inv_chain)
  define n where "n = brk s"
  define h where "h = (nodes s)(n \<mapsto> \<lparr>data = d, nextp = None\<rparr>)"
  from al have fresh: "n \<notin> set as"
    using chain_allocated [OF as(1), of n] by (auto simp: alloc_ok_def n_def)
  with as have ch: "chain h (first (queues s q)) as"
    unfolding h_def by (intro chain_frame)
  from al have al': "\<forall>a. Suc (brk s) \<le> a \<longrightarrow> h a = None"
    by (auto simp: alloc_ok_def h_def n_def)
  show ?thesis
  proof (cases "as = []")
    case Nil: True
    with as have "first (queues s q) = None" by simp
    with True as Nil al' show ?thesis
      by (simp add: blocking_q_put_def malloc_def walk_to_last.simps Let_def
          queue_ok_def size_inv_chain alloc_ok_def h_def [symmetric] n_def [symmetric])
  next
    case False
    from walk_to_last_chain [OF ch False] have w: "walk_to_last h (first (queues s q)) = Some (Inr (last as))" .
    from False have "last as \<in> set as" by simp
    with chain_allocated [OF ch] obtain l where l: "h (last as) = Some l" by auto
    have hn: "h n = Some \<lparr>data = d, nextp = None\<rparr>" by (simp add: h_def)
    from chain_snoc [OF ch False fresh hn _ l]
    have ch': "chain (h(last as \<mapsto> l\<lparr>nextp := Some n\<rparr>)) (first (queues s q)) (as @ [n])" by simp
    from al' l have al'': "\<forall>a. Suc (brk s) \<le> a \<longrightarrow> (h(last as \<mapsto> l\<lparr>nextp := Some n\<rparr>)) a = None"
      by auto
    from True w l ch' as al'' show ?thesis
      by (auto simp: blocking_q_put_def malloc_def Let_def set_next_def pthread_cond_signal_def
          queue_ok_def size_inv_chain alloc_ok_def h_def [symmetric] n_def [symmetric])
  qed
qed


lemma snd_on_return_wait:
  "snd (on_return (pthread_cond_wait self q s) f) = snd (pthread_cond_wait self q s)"
  by (simp add: pthread_cond_wait_def)

lemma on_return_map_inv:
  "I (snd m) \<Longrightarrow> I (snd (on_return m (\<lambda>x s. (Returns (g x), s))))"
  by (cases m) (auto simp: on_return_def split: outcome.splits)

lemmas queue_ok_on_return = on_return_inv [where I = "queue_ok q" for q]

lemma queue_ok_get:
  assumes ok: "queue_ok q s"
  shows "queue_ok q (snd (blocking_q_get self q s))"
proof (cases "sz (queues s q) = 0")
  case True
  have "queue_ok q (snd (pthread_cond_wait self q (touch q SzRead s)))"
    using ok by (intro queue_ok_wait) simp
  then show ?thesis
    by (subst blocking_q_get_unfold) (simp add: True snd_on_return_wait)
next
  case False
  have tk: "queue_ok q (snd (blocking_q_take q (touch q SzRead s)))"
    using ok by (intro queue_ok_take) simp
  have "queue_ok q (snd (on_return (blocking_q_take q (touch q SzRead s)) (\<lambda>element s2.
          if sz (queues s2 q) = 0 then
            on_return (pthread_mutex_lock self q (touch q SzRead s2)) (\<lambda>u s4. (Returns element, s4))
          else (Returns element, touch q SzRead s2))))"
  proof (rule queue_ok_on_return [OF tk])
    fix t s2
    assume "blocking_q_take q (touch q SzRead s) = (Returns t, s2)"
    with tk have s2: "queue_ok q s2" by simp
    then have "queue_ok q (snd (pthread_mutex_lock self q (touch q SzRead s2)))"
      by (intro queue_ok_lock) simp
    then have "queue_ok q (snd (on_return (pthread_mutex_lock self q (touch q SzRead s2))
        (\<lambda>u s4. (Returns t, s4))))"
      by (rule on_return_map_inv)
    with s2 show "queue_ok q (snd (if sz (queues s2 q) = 0 then
            on_return (pthread_mutex_lock self q (touch q SzRead s2)) (\<lambda>u s4. (Returns t, s4))
          else (Returns t, touch q SzRead s2)))"
      by simp
  qed
  with False show ?thesis
    by (subst blocking_q_get_unfold) simp
qed

lemma queue_ok_drain_loop: "queue_ok q s \<Longrightarrow> queue_ok q (snd (drain_loop q buf counter s))"
proof (induction q buf counter s rule: drain_loop_induct)
  case (stop q buf counter s)
  then show ?case by (simp add: drain_loop_stop)
next
  case (step q buf counter s)
  have tk: "queue_ok q (snd (blocking_q_take q (touch q SzRead s)))"
    using step.prems by (intro queue_ok_take) simp
  show ?case
    unfolding drain_loop_step [OF step.hyps]
  proof (rule queue_ok_on_return [OF tk])
    fix t s2
    assume t: "blocking_q_take q (touch q SzRead s) = (Returns t, s2)"
    with tk have s2: "queue_ok q s2" by simp
    show "queue_ok q (snd (on_return (store buf counter t s2) (\<lambda>u s3. drain_loop q buf (counter + 1) s3)))"
    proof (rule queue_ok_on_return [OF queue_ok_store [OF s2]])
      fix u s3
      assume st: "store buf counter t s2 = (Returns u, s3)"
      with queue_ok_store [OF s2, of buf counter t] have "queue_ok q s3" by simp
      with step.IH [OF t st] show "queue_ok q (snd (drain_loop q buf (counter + 1) s3))" .
    qed
  qed
qed


lemma queue_ok_drain:
  assumes ok: "queue_ok q s"
  shows "queue_ok q (snd (blocking_q_drain self ok q buf cap s))"
proof (cases "sz (queues s q) = 0")
  case True
  with ok show ?thesis by (simp add: blocking_q_drain_def)
next
  case False
  obtain b s2 where mb: "malloc_buf ok cap (touch q SzRead s) = (b, s2)"
    by (cases "malloc_buf ok cap (touch q SzRead s)")
  from ok have "queue_ok q (snd (malloc_buf ok cap (touch q SzRead s)))"
    by (intro queue_ok_malloc_buf) simp
  with mb have "queue_ok q s2" by simp
  then have dl: "queue_ok q (snd (drain_loop q b 0 s2))" by (rule queue_ok_drain_loop)
  have "queue_ok q (snd (on_return (drain_loop q b 0 s2) (\<lambda>counter s3.
          on_return (pthread_mutex_lock self q s3) (\<lambda>u s4. (Returns None, s4)))))"
  proof (rule queue_ok_on_return [OF dl])
    fix c s3
    assume "drain_loop q b 0 s2 = (Returns c, s3)"
    with dl have "queue_ok q s3" by simp
    then have "queue_ok q (snd (pthread_mutex_lock self q s3))" by (rule queue_ok_lock)
    then show "queue_ok q (snd (on_return (pthread_mutex_lock self q s3) (\<lambda>u s4. (Returns None, s4))))"
      by (rule on_return_map_inv)
  qed
  with False mb show ?thesis by (simp add: blocking_q_drain_def)
qed

lemma queue_ok_wait_for: "queue_ok q s \<Longrightarrow> queue_ok q (snd (wait_for self q k s))"
  by (subst wait_for.simps) (simp add: snd_on_return_wait queue_ok_wait)

lemma queue_ok_drain_at_least_loop:
  "queue_ok q s \<Longrightarrow> queue_ok q (snd (drain_at_least_loop self q buf m counter s))"
proof (induction self q buf m counter s rule: drain_at_least_loop.induct)
  case (1 self q buf m counter s)
  from "1.prems" have dl: "queue_ok q (snd (drain_loop q buf counter s))"
    by (rule queue_ok_drain_loop)
  show ?case
  proof (subst drain_at_least_loop.simps, rule queue_ok_on_return [OF dl])
    fix c s1
    assume d: "drain_loop q buf counter s = (Returns c, s1)"
    with dl have "queue_ok q s1" by simp
    then have lk: "queue_ok q (snd (pthread_mutex_lock self q s1))" by (rule queue_ok_lock)
    show "queue_ok q (snd (on_return (pthread_mutex_lock self q s1) (\<lambda>u s2.
         if m > c then
           on_return (wait_for self q (m - c) s2) (\<lambda>u s3. drain_at_least_loop self q buf m c s3)
         else (Returns c, s2))))"
    proof (rule queue_ok_on_return [OF lk])
      fix u s2
      assume l: "pthread_mutex_lock self q s1 = (Returns u, s2)"
      with lk have s2: "queue_ok q s2" by simp
      then have wf: "queue_ok q (snd (wait_for self q (m - c) s2))" by (rule queue_ok_wait_for)
      show "queue_ok q (snd (if m > c then
           on_return (wait_for self q (m - c) s2) (\<lambda>u s3. drain_at_least_loop self q buf m c s3)
         else (Returns c, s2)))"
      proof (cases "m > c")
        case True
        have "queue_ok q (snd (on_return (wait_for self q (m - c) s2)
            (\<lambda>u s3. drain_at_least_loop self q buf m c s3)))"
        proof (rule queue_ok_on_return [OF wf])
          fix v s3
          assume w: "wait_for self q (m - c) s2 = (Returns v, s3)"
          with wf have "queue_ok q s3" by simp
          with "1.IH" [OF d l True w] show "queue_ok q (snd (drain_at_least_loop self q buf m c s3))" .
        qed
        with True show ?thesis by simp
      next
        case False
        with s2 show ?thesis by simp
      qed
    qed
  qed
qed

lemma queue_ok_apply_op: "queue_ok q s \<Longrightarrow> queue_ok q (snd (apply_op q x s))"
proof (cases x)
  case (Put ok d)
  assume "queue_ok q s"
  then have "queue_ok q (snd (blocking_q_put ok q d s))" by (rule queue_ok_put)
  then show ?thesis unfolding Put apply_op.simps by (rule on_return_map_inv)
next
  case (Get self)
  assume "queue_ok q s"
  then have "queue_ok q (snd (blocking_q_get self q s))" by (rule queue_ok_get)
  then show ?thesis unfolding Get apply_op.simps by (rule on_return_map_inv)
next
  case (Drain self ok buf cap)
  assume "queue_ok q s"
  then have "queue_ok q (snd (blocking_q_drain self ok q buf cap s))" by (rule queue_ok_drain)
  then show ?thesis unfolding Drain apply_op.simps by (rule on_return_map_inv)
next
  case (DrainAtLeast self buf cap m)
  assume "queue_ok q s"
  then have "queue_ok q (snd (blocking_q_drain_at_least self q buf cap m s))"
    unfolding blocking_q_drain_at_least_def by (rule queue_ok_drain_at_least_loop)
  then show ?thesis unfolding DrainAtLeast apply_op.simps by (rule on_return_map_inv)
qed

lemma queue_ok_run: "queue_ok q s \<Longrightarrow> queue_ok q (snd (run q ops s))"
proof (induction ops arbitrary: s)
  case Nil
  then show ?case by simp
next
  case (Cons x xs)
  from Cons.prems have ok: "queue_ok q (snd (apply_op q x s))" by (rule queue_ok_apply_op)
  obtain r s' where r: "apply_op q x s = (r, s')" by (cases "apply_op q x s")
  with ok have "queue_ok q s'" by simp
  with Cons.IH [of s'] r show ?case
    by (cases r) (auto split: prod.splits)
qed

lemma queue_ok_init:
  "alloc_ok s \<Longrightarrow> queue_ok q (snd (blocking_q_init self merr cerr q s))"
  by (simp add: blocking_q_init_def pthread_mutex_lock_def pthread_mutex_init_def Let_def
      queue_ok_def size_inv_def alloc_ok_def queue_nodes.simps)

text \<open>
  C4. In a memory where the allocator is sound: from a queue that \<^verbatim>\<open>blocking_q_init\<close>
  has set up, whatever operations a thread then runs on it, the count equals the
  number of nodes reachable from the head pointer in the state the run ends in; and
  the same holds for a run that starts from any queue whose count is right, empty or
  not.
\<close>

theorem size_invariant:
  assumes "alloc_ok s"
  shows "size_inv q (snd (run q ops (snd (blocking_q_init self merr cerr q s)))) \<and>
         (size_inv q s \<longrightarrow> size_inv q (snd (run q ops s)))"
proof
  from queue_ok_run [OF queue_ok_init [OF assms]]
  show "size_inv q (snd (run q ops (snd (blocking_q_init self merr cerr q s))))"
    by (simp add: queue_ok_def)
next
  show "size_inv q s \<longrightarrow> size_inv q (snd (run q ops s))"
  proof
    assume "size_inv q s"
    with assms have "queue_ok q s" by (simp add: queue_ok_def)
    then have "queue_ok q (snd (run q ops s))" by (rule queue_ok_run)
    then show "size_inv q (snd (run q ops s))" by (simp add: queue_ok_def)
  qed
qed

theorem size_invariant_witness:
  "alloc_ok two_tasks \<and> size_inv 0 two_tasks \<and>
   size_inv 0 (snd (run 0 [Put True (Some 12), Get 1, Drain 1 True (Some 3) 2] two_tasks)) \<and>
   size_inv 0 (snd (run 0 [Put True (Some 12), Get 1] (snd (blocking_q_init 0 0 0 0 two_tasks))))"
proof -
  have a: "alloc_ok two_tasks" by (auto simp: alloc_ok_def two_tasks_def)
  have i: "size_inv 0 two_tasks" by (simp add: size_inv_def two_tasks_def queue_nodes.simps)
  from size_invariant [OF a, of 0 "[Put True (Some 12), Get 1, Drain 1 True (Some 3) 2]" 0 0 0] i
  have "size_inv 0 (snd (run 0 [Put True (Some 12), Get 1, Drain 1 True (Some 3) 2] two_tasks))"
    by blast
  moreover from size_invariant [OF a, of 0 "[Put True (Some 12), Get 1]" 0 0 0]
  have "size_inv 0 (snd (run 0 [Put True (Some 12), Get 1] (snd (blocking_q_init 0 0 0 0 two_tasks))))"
    by blast
  ultimately show ?thesis using a i by blast
qed

subsection \<open>The drains\<close>

text \<open>
  C5 (the code at the failing input). \<^verbatim>\<open>blocking_q_drain\<close> on the queue of
  \<open>two_tasks\<close>, with the caller's buffer 3 and room announced for two: the function
  hands back no value, the caller's buffer is as it was, the two task pointers sit in
  a block allocated inside the function, and the queue is empty. With room announced
  for one, both tasks are taken off the queue all the same, the second one stored
  behind the end of that block.
\<close>

theorem drain_neither_fills_nor_returns:
  "fst (blocking_q_drain 1 True 0 (Some 3) 2 two_tasks) = Returns None \<and>
   bufs (snd (blocking_q_drain 1 True 0 (Some 3) 2 two_tasks)) 3 = Some [None, None] \<and>
   bufs (snd (blocking_q_drain 1 True 0 (Some 3) 2 two_tasks)) 20 = Some [Some 10, Some 11] \<and>
   sz (queues (snd (blocking_q_drain 1 True 0 (Some 3) 2 two_tasks)) 0) = 0 \<and>
   fst (blocking_q_drain 1 True 0 (Some 3) 1 two_tasks) = Fault BufferOverflow \<and>
   sz (queues (snd (blocking_q_drain 1 True 0 (Some 3) 1 two_tasks)) 0) = 0"
  by code_simp

text \<open>
  C6 (the code at the failing input). \<^verbatim>\<open>blocking_q_drain_at_least\<close> on the queue
  of \<open>two_tasks\<close> with \<^verbatim>\<open>sz = 1\<close> and \<^verbatim>\<open>min = 1\<close>: into the buffer 3, which has
  room for two, it writes both tasks and returns 2, more than the capacity it was
  given; into the buffer 4, which has room for exactly one, it writes behind the end.
\<close>

theorem drain_at_least_exceeds_capacity:
  "fst (blocking_q_drain_at_least 1 0 (Some 3) 1 1 two_tasks) = Returns 2 \<and>
   bufs (snd (blocking_q_drain_at_least 1 0 (Some 3) 1 1 two_tasks)) 3 = Some [Some 10, Some 11] \<and>
   sz (queues (snd (blocking_q_drain_at_least 1 0 (Some 3) 1 1 two_tasks)) 0) = 0 \<and>
   fst (blocking_q_drain_at_least 1 0 (Some 4) 1 1 two_tasks) = Fault BufferOverflow \<and>
   sz (queues (snd (blocking_q_drain_at_least 1 0 (Some 4) 1 1 two_tasks)) 0) = 0"
  by code_simp

subsection \<open>The lock\<close>

text \<open>
  C8 (the code at the failing input). Thread 1 calls each operation on the queue of
  \<open>two_tasks\<close>, whose mutex is free. \<^verbatim>\<open>blocking_q_get\<close> reads and writes the count
  and the head while nobody holds the mutex, and so do the other four operations: none
  keeps the lock discipline.
\<close>

theorem operations_touch_queue_without_lock:
  "lock (queues two_tasks 0) = None \<and>
   trace (snd (blocking_q_get 1 0 two_tasks)) =
     [Access 0 SzRead None, Access 0 FirstRead None, Access 0 FirstWrite None,
      Access 0 SzRead None, Access 0 SzWrite None, Access 0 SzRead None] \<and>
   \<not> lock_disciplined 1 0 (trace (snd (blocking_q_get 1 0 two_tasks))) \<and>
   \<not> lock_disciplined 1 0 (trace (snd (blocking_q_put True 0 (Some 12) two_tasks))) \<and>
   \<not> lock_disciplined 1 0 (trace (snd (blocking_q_drain 1 True 0 (Some 3) 2 two_tasks))) \<and>
   \<not> lock_disciplined 1 0 (trace (snd (blocking_q_drain_at_least 1 0 (Some 3) 2 1 two_tasks))) \<and>
   \<not> lock_disciplined 1 0 (trace (snd (blocking_q_peek True 0 two_tasks)))"
  by code_simp

subsection \<open>The scheduler\<close>

text \<open>
  C2 (the code at the failing input). The scheduler takes the poison pill from its
  inbound queue while the queues of the four processors are empty: the first
  \<^verbatim>\<open>blocking_q_put\<close> of the pill faults on the NULL head of processor 0's queue, and
  the queue of every processor is still empty.
\<close>

theorem scheduler_faults_on_first_processor:
  "fst (scheduler 1 True (\<lambda>i. True) four_processors pill_arrives) = Fault NullDeref \<and>
   map (queues (snd (scheduler 1 True (\<lambda>i. True) four_processors pill_arrives))) [1, 2, 3, 4] =
     [\<lparr>sz = 0, first = None, lock = None\<rparr>, \<lparr>sz = 0, first = None, lock = None\<rparr>,
      \<lparr>sz = 0, first = None, lock = None\<rparr>, \<lparr>sz = 0, first = None, lock = None\<rparr>]"
  by code_simp

subsection \<open>The driver\<close>

lemma start_processors_fails:
  assumes pret: "\<And>i s. \<exists>ok s'. pinit i s = (Returns ok, s')"
    and bad: "(\<forall>s. fst (pinit j s) = Returns False) \<or> 0 \<noteq> proc_thread_err ev j"
    and j: "j < PROCESSOR_COUNT"
  shows "i \<le> j \<Longrightarrow> fst (start_processors pinit ev i s) = Returns False"
proof (induction "j - i" arbitrary: i s)
  case 0
  with j have i: "i = j" "i < PROCESSOR_COUNT" by simp_all
  from pret obtain ok s1 where p: "pinit i s = (Returns ok, s1)" by blast
  with bad i have "\<not> ok \<or> 0 \<noteq> proc_thread_err ev i" by (metis fst_conv outcome.inject)
  with i p show ?case by (subst start_processors.simps) auto
next
  case (Suc k)
  with j have i: "i < j" "i < PROCESSOR_COUNT" by simp_all
  from pret obtain ok s1 where p: "pinit i s = (Returns ok, s1)" by blast
  from Suc.hyps(2) i have "k = j - (i + 1)" "i + 1 \<le> j" by simp_all
  from Suc.hyps(1) [OF this] i p show ?case
    by (subst start_processors.simps) simp
qed

text \<open>
  C9. Whatever the two initialisers are, as long as they return: if the queue's
  initialiser reports failure, or the scheduler's thread cannot be created, or some
  processor's initialiser reports failure or its thread cannot be created, \<^verbatim>\<open>main\<close>
  returns \<open>EXIT_FAILURE\<close>. (\<open>main\<close> is \<open>main_with\<close> applied to
  \<^verbatim>\<open>blocking_q_init\<close> and \<^verbatim>\<open>processor_init\<close>.)
\<close>

theorem failed_start_exits_with_failure:
  assumes qret: "\<And>q s. \<exists>ok s'. qinit q s = (Returns ok, s')"
    and pret: "\<And>i s. \<exists>ok s'. pinit i s = (Returns ok, s')"
    and bad: "(\<forall>q s. fst (qinit q s) = Returns False) \<or> 0 \<noteq> sched_thread_err ev \<or>
      (\<exists>j < PROCESSOR_COUNT. (\<forall>s. fst (pinit j s) = Returns False) \<or> 0 \<noteq> proc_thread_err ev j)"
  shows "fst (main_with qinit pinit argc argv ev s) = Returns EXIT_FAILURE"
proof (cases "argc < 2 \<or> \<not> sched_q_mem ev")
  case True
  then show ?thesis by (auto simp: main_with_def malloc_def)
next
  case False
  define s1 where "s1 = s\<lparr>brk := Suc (brk s)\<rparr>"
  from qret obtain ok s2 where q: "qinit (brk s) s1 = (Returns ok, s2)" by blast
  show ?thesis
  proof (cases "\<not> ok \<or> 0 \<noteq> sched_thread_err ev")
    case True
    with False q show ?thesis
      by (auto simp: main_with_def malloc_def s1_def [symmetric])
  next
    case ok: False
    with bad q obtain j where j: "j < PROCESSOR_COUNT"
      "(\<forall>s. fst (pinit j s) = Returns False) \<or> 0 \<noteq> proc_thread_err ev j"
      by (metis fst_conv outcome.inject)
    have "fst (start_processors pinit ev 0 (emit (Spawn ''scheduler'') s2)) = Returns False"
      by (rule start_processors_fails [where j = j]) (use pret j in auto)
    then obtain s3 where "start_processors pinit ev 0 (emit (Spawn ''scheduler'') s2) = (Returns False, s3)"
      by (cases "start_processors pinit ev 0 (emit (Spawn ''scheduler'') s2)") simp
    with False ok q show ?thesis
      by (simp add: main_with_def malloc_def s1_def [symmetric])
  qed
qed

theorem failed_start_exits_with_failure_witness:
  "fst (main_with (\<lambda>q s. (Returns True, s)) processor_init 2 [''tp2'', ''AB5A''] no_threads start_state)
     = Returns EXIT_FAILURE \<and>
   fst (main 0 2 [''tp2'', ''AB5A''] no_threads start_state) = Returns EXIT_FAILURE"
proof -
  have e: "0 \<noteq> sched_thread_err no_threads" by (simp add: no_threads_def)
  have p: "\<And>i s. \<exists>ok s'. processor_init i s = (Returns ok, s')"
    by (auto simp: processor_init_def)
  have q: "\<And>q s. \<exists>ok s'. blocking_q_init 0 (mutex_err no_threads) (cond_err no_threads) q s
      = (Returns ok, s')"
    using blocking_q_init_result by (metis prod.collapse)
  have "fst (main_with (\<lambda>q s. (Returns True, s)) processor_init 2 [''tp2'', ''AB5A''] no_threads start_state)
     = Returns EXIT_FAILURE"
    by (rule failed_start_exits_with_failure) (use e p in auto)
  moreover have "fst (main 0 2 [''tp2'', ''AB5A''] no_threads start_state) = Returns EXIT_FAILURE"
    unfolding main_def by (rule failed_start_exits_with_failure) (use e p q in auto)
  ultimately show ?thesis by simp
qed

lemma spawned_append: "spawned (es @ fs) = spawned es + spawned fs"
  by (induction es rule: spawned.induct) simp_all

lemma spawned_emit:
  "spawned (trace (emit e s)) = spawned (trace s) + spawned [e]"
  by (simp add: emit_def spawned_append)

lemma blocking_q_init_frame:
  "nodes (snd (blocking_q_init self merr cerr q s)) = nodes s"
  "tasks (snd (blocking_q_init self merr cerr q s)) = tasks s"
  "spawned (trace (snd (blocking_q_init self merr cerr q s))) = spawned (trace s)"
  by (simp_all add: blocking_q_init_def pthread_mutex_lock_def pthread_mutex_init_def Let_def
      spawned_emit touch_def set_sz_def set_first_def)

lemma main_result:
  "main self argc argv ev s =
     (if argc < 2 then
        (Returns EXIT_FAILURE, emit (Print (''Missing / Wrong arguments.'' @ [CHR 0x0A])) s)
      else if \<not> sched_q_mem ev then (Returns EXIT_FAILURE, s)
      else (Returns EXIT_FAILURE,
            snd (blocking_q_init self (mutex_err ev) (cond_err ev) (brk s) (s\<lparr>brk := Suc (brk s)\<rparr>))))"
proof -
  obtain s2 where
    "blocking_q_init self (mutex_err ev) (cond_err ev) (brk s) (s\<lparr>brk := Suc (brk s)\<rparr>) = (Returns False, s2)"
    using blocking_q_init_result [of self "mutex_err ev" "cond_err ev" "brk s" "s\<lparr>brk := Suc (brk s)\<rparr>"]
    by (cases "blocking_q_init self (mutex_err ev) (cond_err ev) (brk s) (s\<lparr>brk := Suc (brk s)\<rparr>)") simp
  then show ?thesis
    by (simp add: main_def main_with_def malloc_def)
qed

text \<open>
  C10. \<^verbatim>\<open>blocking_q_init\<close> returns \<open>False\<close> on every call, whatever the primitives
  answer. So \<^verbatim>\<open>main\<close> returns \<open>EXIT_FAILURE\<close> for every command line, having started
  no thread, allocated no node and created no task; with an argument on the command
  line and memory for the queue, it does so with the scheduler's queue just
  initialised (empty, its mutex taken by the main thread), and otherwise it has not
  touched any queue.
\<close>

theorem main_always_fails:
  "fst (blocking_q_init self merr cerr q s) = Returns False \<and>
   fst (main self argc argv ev s) = Returns EXIT_FAILURE \<and>
   spawned (trace (snd (main self argc argv ev s))) = spawned (trace s) \<and>
   nodes (snd (main self argc argv ev s)) = nodes s \<and>
   tasks (snd (main self argc argv ev s)) = tasks s \<and>
   (if 2 \<le> argc \<and> sched_q_mem ev
    then queues (snd (main self argc argv ev s)) (brk s) = \<lparr>sz = 0, first = None, lock = Some self\<rparr>
    else queues (snd (main self argc argv ev s)) = queues s)"
  by (simp add: blocking_q_init_result main_result blocking_q_init_frame blocking_q_init_queue
      spawned_emit)


end
